theory Spec2Isabelle
  imports Complex_Main "HOL-Library.Multiset"
begin

section \<open>The population step of the NEAT engine (population.go)\<close>

text \<open>
  A shallow embedding of \<^verbatim>\<open>population.go\<close>. Conventions of the model:
  \<^item> Go's \<^verbatim>\<open>float64\<close> is read as \<^typ>\<open>real\<close>: rounding, NaN and the infinities are
    not modelled. A division by zero, which gives a NaN or an infinity in Go, is a case of
    its own wherever the file divides.
  \<^item> Go's \<^verbatim>\<open>int\<close> is read as \<^typ>\<open>int\<close>; the file only counts organisms with it.
  \<^item> A pointer that the code may leave nil is an \<^typ>\<open>'a option\<close>; a slice is a list.
  \<^item> A run-time panic is the left summand of a sum type.
  \<^item> The random source and the innovation counter are process-wide state in the source;
    the model threads one world value \<open>'w\<close> through every call that touches them.
\<close>

subsection \<open>Data\<close>

datatype error =
    NilDereference
  | IndexOutOfRange
  | SliceBoundsOutOfRange
  | MakeSliceOutOfRange
  | CollaboratorPanic

text \<open>
  Modelled from the spec: the types \<^verbatim>\<open>Genome\<close>, \<^verbatim>\<open>Organism\<close>, \<^verbatim>\<open>Species\<close> and
  \<^verbatim>\<open>Settings\<close> are declared outside \<^verbatim>\<open>population.go\<close>. Their fields are the ones
  the file reads and writes. The fitness vector has a fixed size and the file only reads
  its index 0, which is the field \<open>Fitness0\<close> here.
\<close>

record ('n, 'c) genome =
  Nodes :: "'n list"
  Conns :: "'c list"

record ('n, 'c) organism =
  Genome :: "('n, 'c) genome"
  Fitness0 :: real

record ('n, 'c) species =
  ID :: int
  Orgs :: "('n, 'c) organism list"
  Age :: int
  BestFitness :: real
  BestFitAge :: int
  Example :: "('n, 'c) organism option"
  currFitness :: real

record ('n, 'c) population =
  Generation :: int
  Species :: "('n, 'c) species list"

record settings =
  PopulationSize :: int
  SurvivalPercent :: real
  EliteCount :: int
  AgeToStagnation :: int
  InterspeciesMating :: real
  Crossover :: real
  CompatThreshold :: real

text \<open>
  The collaborators of the file: everything it calls and does not define. Each is a
  parameter of the model. A collaborator that receives a possibly-nil parent may panic.
  \<open>nonfiniteToInt\<close> is the platform's result of converting a NaN or an infinity to
  \<^verbatim>\<open>int\<close>, which the Go specification leaves to the implementation; its arguments are
  the species fitness and the population size that were divided by a zero total.
\<close>

record ('w, 'n, 'c) collab =
  calcFitness :: "('n, 'c) species \<Rightarrow> ('n, 'c) species"
  rndFloat64 :: "'w \<Rightarrow> real \<times> 'w"
  rndNext :: "'w \<Rightarrow> real \<times> 'w"
  rndInt :: "int \<Rightarrow> 'w \<Rightarrow> error + int \<times> 'w"
  innoReset :: "'w \<Rightarrow> 'w"
  innoNextID :: "'w \<Rightarrow> int \<times> 'w"
  cloneOrg :: "('n, 'c) organism option \<Rightarrow> int \<Rightarrow> error + ('n, 'c) organism"
  mutate :: "settings \<Rightarrow> ('n, 'c) organism \<Rightarrow> 'w \<Rightarrow> error + ('n, 'c) organism \<times> 'w"
  crossover :: "('n, 'c) organism option \<Rightarrow> ('n, 'c) organism option \<Rightarrow> 'w
                 \<Rightarrow> error + ('n, 'c) organism \<times> 'w"
  distance :: "settings \<Rightarrow> ('n, 'c) organism \<Rightarrow> ('n, 'c) organism option \<Rightarrow> real"
  nonfiniteToInt :: "real \<Rightarrow> int \<Rightarrow> int"

subsection \<open>Selection: \<^verbatim>\<open>tournament\<close>\<close>

text \<open>
  The loop of \<^verbatim>\<open>tournament\<close>: walk the pool, add each primary fitness to the running
  sum, return the first organism at which the sum reaches the target. Falling off the end
  returns the zero value of the result, a nil pointer.
\<close>

fun tournamentWalk :: "('n, 'c) organism list \<Rightarrow> real \<Rightarrow> real \<Rightarrow> ('n, 'c) organism option" where
  "tournamentWalk [] tgt acc = None"
| "tournamentWalk (x # xs) tgt acc =
     (let acc' = acc + Fitness0 x
      in if acc' \<ge> tgt then Some x else tournamentWalk xs tgt acc')"

definition tournament ::
  "('w, 'n, 'c) collab \<Rightarrow> ('n, 'c) organism list \<Rightarrow> real \<Rightarrow> 'w \<Rightarrow> ('n, 'c) organism option \<times> 'w" where
  "tournament ops orgs totFit w =
     (case rndNext ops w of (r, w') \<Rightarrow> (tournamentWalk orgs (r * totFit) 0, w'))"

subsection \<open>Population queries\<close>

text \<open>\<^verbatim>\<open>Population.Organisms\<close>: the organisms of every species, in species order.\<close>

definition Organisms :: "('n, 'c) population \<Rightarrow> ('n, 'c) organism list" where
  "Organisms pop = concat (map Orgs (Species pop))"

text \<open>
  Modelled from the spec: \<^verbatim>\<open>living.Organisms(settings)\<close>, which \<^verbatim>\<open>rollPop\<close> calls, is a
  method of \<^verbatim>\<open>SpeciesSlice\<close> defined outside \<^verbatim>\<open>population.go\<close>; the spec has it as the
  same flattening, over a slice of species.
\<close>

definition sliceOrganisms :: "('n, 'c) species list \<Rightarrow> ('n, 'c) organism list" where
  "sliceOrganisms ss = concat (map Orgs ss)"

text \<open>
  \<^verbatim>\<open>MPC\<close>: \<open>tot\<close> adds the gene count of every organism, \<open>cnt\<close> is incremented once per
  species, in the outer loop. The quotient of two zeros is NaN in Go, \<open>None\<close> here.
\<close>

definition geneCount :: "('n, 'c) organism \<Rightarrow> int" where
  "geneCount x = int (length (Nodes (Genome x))) + int (length (Conns (Genome x)))"

fun mpcLoop :: "('n, 'c) species list \<Rightarrow> int \<times> int \<Rightarrow> int \<times> int" where
  "mpcLoop [] acc = acc"
| "mpcLoop (s # ss) (tot, cnt) = mpcLoop ss (tot + sum_list (map geneCount (Orgs s)), cnt + 1)"

definition MPC :: "('n, 'c) population \<Rightarrow> real option" where
  "MPC pop = (case mpcLoop (Species pop) (0, 0) of (tot, cnt) \<Rightarrow>
                if cnt = 0 then None else Some (real_of_int tot / real_of_int cnt))"


subsection \<open>Conversions and slice helpers\<close>

text \<open>
  Go's conversion of a finite \<^verbatim>\<open>float64\<close> to \<^verbatim>\<open>int\<close> drops the fraction: it truncates
  towards zero.
\<close>

definition goInt :: "real \<Rightarrow> int" where
  "goInt x = (if 0 \<le> x then \<lfloor>x\<rfloor> else \<lceil>x\<rceil>)"

text \<open>
  Modelled from the spec: \<^verbatim>\<open>OrganismSlice.TotalFitness\<close> and the order of
  \<^verbatim>\<open>OrganismSlice\<close> used by \<^verbatim>\<open>sort.Sort(sort.Reverse(s.Orgs))\<close> are defined outside
  \<^verbatim>\<open>population.go\<close>. The spec has the total as the sum of the primary fitness and the
  order as primary fitness, descending. Go's sort is not stable; the order among equal
  fitness values is the one of insertion sort here.
\<close>

definition TotalFitness :: "('n, 'c) organism list \<Rightarrow> real" where
  "TotalFitness orgs = sum_list (map Fitness0 orgs)"

definition sortReverse :: "('n, 'c) organism list \<Rightarrow> ('n, 'c) organism list" where
  "sortReverse orgs = sort_key (\<lambda>x. - Fitness0 x) orgs"

subsection \<open>\<^verbatim>\<open>rollPop\<close>: the best species\<close>

text \<open>
  The first loop of \<^verbatim>\<open>rollPop\<close>. \<open>bestFit\<close> starts at the zero value of \<^verbatim>\<open>float64\<close>
  and \<open>bestSpecies\<close> at nil; the comparison is strict.
\<close>

fun scanOrgs ::
  "('n, 'c) species \<Rightarrow> ('n, 'c) organism list \<Rightarrow> ('n, 'c) species option \<times> real
     \<Rightarrow> ('n, 'c) species option \<times> real" where
  "scanOrgs s [] acc = acc"
| "scanOrgs s (x # xs) (bestSpecies, bestFit) =
     (if Fitness0 x > bestFit then scanOrgs s xs (Some s, Fitness0 x)
      else scanOrgs s xs (bestSpecies, bestFit))"

fun scanSpecies ::
  "('w, 'n, 'c) collab \<Rightarrow> ('n, 'c) species list \<Rightarrow> ('n, 'c) species option \<times> real
     \<Rightarrow> ('n, 'c) species list \<times> ('n, 'c) species option \<times> real" where
  "scanSpecies ops [] acc = ([], acc)"
| "scanSpecies ops (s # ss) acc =
     (let s' = calcFitness ops s
      in case scanSpecies ops ss (scanOrgs s' (Orgs s') acc) of
           (ss', acc') \<Rightarrow> (s' # ss', acc'))"

subsection \<open>\<^verbatim>\<open>rollPop\<close>: survival gate and culling\<close>

definition keepCount :: "settings \<Rightarrow> int \<Rightarrow> int" where
  "keepCount st n =
     (let keep = goInt (SurvivalPercent st * real_of_int n);
          keep = (if keep < EliteCount st then EliteCount st else keep);
          keep = (if keep > n then n else keep)
      in keep)"

text \<open>
  The body of the gate for one surviving species: sort, compute \<open>keep\<close>, reslice, pick the
  example. \<^verbatim>\<open>s.Orgs[:keep]\<close> panics when \<open>keep\<close> is negative, and
  \<^verbatim>\<open>s.Orgs[random.Int(keep)]\<close> panics when the index is outside the resliced organisms,
  which it always is when \<open>keep\<close> is 0.
\<close>

definition cullSpecies ::
  "('w, 'n, 'c) collab \<Rightarrow> settings \<Rightarrow> ('n, 'c) species \<Rightarrow> 'w \<Rightarrow> error + ('n, 'c) species \<times> 'w" where
  "cullSpecies ops st s w =
     (let sorted = sortReverse (Orgs s);
          keep = keepCount st (int (length sorted))
      in if keep < 0 then Inl SliceBoundsOutOfRange
         else let orgs = take (nat keep) sorted
              in case rndInt ops keep w of
                   Inl e \<Rightarrow> Inl e
                 | Inr (i, w') \<Rightarrow>
                     if 0 \<le> i \<and> i < int (length orgs)
                     then Inr (s\<lparr>Orgs := orgs, Example := Some (orgs ! nat i)\<rparr>, w')
                     else Inl IndexOutOfRange)"

text \<open>
  The second loop. The accumulator is \<open>(living, adjFit, popFit)\<close>. The gate reads
  \<^verbatim>\<open>bestSpecies.ID\<close> first, for every species, so a nil \<open>bestSpecies\<close> panics at the first
  species.
\<close>

fun cullLoop ::
  "('w, 'n, 'c) collab \<Rightarrow> settings \<Rightarrow> ('n, 'c) species option \<Rightarrow> ('n, 'c) species list
     \<Rightarrow> ('n, 'c) species list \<times> real \<times> real \<Rightarrow> 'w
     \<Rightarrow> error + (('n, 'c) species list \<times> real \<times> real) \<times> 'w" where
  "cullLoop ops st bestSpecies [] acc w = Inr (acc, w)"
| "cullLoop ops st bestSpecies (s # ss) (living, adjFit, popFit) w =
     (case bestSpecies of
        None \<Rightarrow> Inl NilDereference
      | Some b \<Rightarrow>
          if ID s = ID b \<or> Age s - BestFitAge s < AgeToStagnation st
          then (case cullSpecies ops st s w of
                  Inl e \<Rightarrow> Inl e
                | Inr (s', w') \<Rightarrow>
                    cullLoop ops st bestSpecies ss
                      (living @ [s'], adjFit + currFitness s, popFit + TotalFitness (Orgs s')) w')
          else cullLoop ops st bestSpecies ss (living, adjFit, popFit) w)"

subsection \<open>\<^verbatim>\<open>rollPop\<close>: reproduction\<close>

text \<open>The elite loop: \<^verbatim>\<open>for i := 0; i < EliteCount && i < len(currS.Orgs); i++\<close>.\<close>

fun addElite ::
  "int \<Rightarrow> int \<Rightarrow> ('n, 'c) organism list \<Rightarrow> ('n, 'c) organism list \<times> int
     \<Rightarrow> ('n, 'c) organism list \<times> int" where
  "addElite eliteCount i [] acc = acc"
| "addElite eliteCount i (x # xs) (children, cnt) =
     (if i < eliteCount then addElite eliteCount (i + 1) xs (children @ [x], cnt - 1)
      else (children, cnt))"

text \<open>The two ways a child is made: clone and mutate, or cross over and mutate.\<close>

definition mutateOnly ::
  "('w, 'n, 'c) collab \<Rightarrow> settings \<Rightarrow> ('n, 'c) organism option \<Rightarrow> ('n, 'c) organism list \<Rightarrow> 'w
     \<Rightarrow> error + ('n, 'c) organism list \<times> 'w" where
  "mutateOnly ops st p1 children w =
     (case innoNextID ops w of (newID, w1) \<Rightarrow>
        case cloneOrg ops p1 newID of
          Inl e \<Rightarrow> Inl e
        | Inr child \<Rightarrow>
            (case mutate ops st child w1 of
               Inl e \<Rightarrow> Inl e
             | Inr (child', w2) \<Rightarrow> Inr (children @ [child'], w2)))"

definition crossMutate ::
  "('w, 'n, 'c) collab \<Rightarrow> settings \<Rightarrow> ('n, 'c) organism option \<Rightarrow> ('n, 'c) organism option
     \<Rightarrow> ('n, 'c) organism list \<Rightarrow> 'w \<Rightarrow> error + ('n, 'c) organism list \<times> 'w" where
  "crossMutate ops st p1 p2 children w =
     (case crossover ops p1 p2 w of
        Inl e \<Rightarrow> Inl e
      | Inr (child, w1) \<Rightarrow>
          (case mutate ops st child w1 of
             Inl e \<Rightarrow> Inl e
           | Inr (child', w2) \<Rightarrow> Inr (children @ [child'], w2)))"

text \<open>
  One pass of the offspring loop of a species. \<^verbatim>\<open>||\<close> does not evaluate
  \<^verbatim>\<open>random.Next()\<close> when the species has one organism.
\<close>

definition offspringSlot ::
  "('w, 'n, 'c) collab \<Rightarrow> settings \<Rightarrow> ('n, 'c) organism list \<Rightarrow> real
     \<Rightarrow> ('n, 'c) organism list \<Rightarrow> real \<Rightarrow> ('n, 'c) organism list \<Rightarrow> 'w
     \<Rightarrow> error + ('n, 'c) organism list \<times> 'w" where
  "offspringSlot ops st orgs orgFit popOrgs popFit children w =
     (case rndFloat64 ops w of (r0, w0) \<Rightarrow>
        if r0 < InterspeciesMating st then Inr (children, w0)
        else case tournament ops orgs orgFit w0 of (p1, w1) \<Rightarrow>
          if length orgs = 1 then mutateOnly ops st p1 children w1
          else case rndNext ops w1 of (r2, w2) \<Rightarrow>
            if r2 > Crossover st then mutateOnly ops st p1 children w2
            else case rndNext ops w2 of (r3, w3) \<Rightarrow>
              (case (if r3 < InterspeciesMating st then tournament ops popOrgs popFit w3
                     else tournament ops orgs orgFit w3) of
                 (p2, w4) \<Rightarrow> crossMutate ops st p1 p2 children w4))"

fun offspringLoop ::
  "('w, 'n, 'c) collab \<Rightarrow> settings \<Rightarrow> ('n, 'c) organism list \<Rightarrow> real
     \<Rightarrow> ('n, 'c) organism list \<Rightarrow> real \<Rightarrow> nat \<Rightarrow> ('n, 'c) organism list \<Rightarrow> 'w
     \<Rightarrow> error + ('n, 'c) organism list \<times> 'w" where
  "offspringLoop ops st orgs orgFit popOrgs popFit 0 children w = Inr (children, w)"
| "offspringLoop ops st orgs orgFit popOrgs popFit (Suc n) children w =
     (case offspringSlot ops st orgs orgFit popOrgs popFit children w of
        Inl e \<Rightarrow> Inl e
      | Inr (children', w') \<Rightarrow> offspringLoop ops st orgs orgFit popOrgs popFit n children' w')"

text \<open>
  ``Ensure we have the right number of children'': the block at the end of the body of the
  loop over the living species. The reslice panics for a negative population size.
\<close>

fun topUp ::
  "('w, 'n, 'c) collab \<Rightarrow> settings \<Rightarrow> ('n, 'c) organism list \<Rightarrow> real \<Rightarrow> nat
     \<Rightarrow> ('n, 'c) organism list \<Rightarrow> 'w \<Rightarrow> error + ('n, 'c) organism list \<times> 'w" where
  "topUp ops st popOrgs popFit 0 children w = Inr (children, w)"
| "topUp ops st popOrgs popFit (Suc n) children w =
     (case tournament ops popOrgs popFit w of (p1, w1) \<Rightarrow>
      case tournament ops popOrgs popFit w1 of (p2, w2) \<Rightarrow>
      case crossMutate ops st p1 p2 children w2 of
        Inl e \<Rightarrow> Inl e
      | Inr (children', w') \<Rightarrow> topUp ops st popOrgs popFit n children' w')"

definition ensureCount ::
  "('w, 'n, 'c) collab \<Rightarrow> settings \<Rightarrow> ('n, 'c) organism list \<Rightarrow> real
     \<Rightarrow> ('n, 'c) organism list \<Rightarrow> 'w \<Rightarrow> error + ('n, 'c) organism list \<times> 'w" where
  "ensureCount ops st popOrgs popFit children w =
     (if int (length children) > PopulationSize st
      then (if PopulationSize st < 0 then Inl SliceBoundsOutOfRange
            else Inr (take (nat (PopulationSize st)) children, w))
      else topUp ops st popOrgs popFit (nat (PopulationSize st - int (length children)))
             children w)"

text \<open>
  The offspring budget of a species. Dividing by a zero \<open>adjFit\<close> gives a NaN or an
  infinity in Go, whose conversion is the platform's.
\<close>

definition budget :: "('w, 'n, 'c) collab \<Rightarrow> settings \<Rightarrow> real \<Rightarrow> ('n, 'c) species \<Rightarrow> int" where
  "budget ops st adjFit currS =
     (if adjFit = 0 then nonfiniteToInt ops (currFitness currS) (PopulationSize st)
      else goInt (currFitness currS / adjFit * real_of_int (PopulationSize st)))"

text \<open>
  The body of the loop over the living species; the accumulator is the species of the next
  population and the children. \<^verbatim>\<open>make\<close> panics for a negative capacity. The block
  ``Ensure we have the right number of children'' is inside this body: the brace that
  closes the loop comes after it.
\<close>

definition reproduceSpecies ::
  "('w, 'n, 'c) collab \<Rightarrow> settings \<Rightarrow> real \<Rightarrow> ('n, 'c) organism list \<Rightarrow> real
     \<Rightarrow> ('n, 'c) species \<Rightarrow> ('n, 'c) species list \<times> ('n, 'c) organism list \<Rightarrow> 'w
     \<Rightarrow> error + (('n, 'c) species list \<times> ('n, 'c) organism list) \<times> 'w" where
  "reproduceSpecies ops st adjFit popOrgs popFit currS acc w =
     (case acc of (nextSpecies, children) \<Rightarrow>
      let cnt = budget ops st adjFit currS
      in if cnt < 0 then Inl MakeSliceOutOfRange
         else
           let nextS = \<lparr>ID = ID currS, Orgs = [], Age = Age currS + 1,
                        BestFitness = BestFitness currS, BestFitAge = BestFitAge currS,
                        Example = Example currS, currFitness = 0\<rparr>
           in case addElite (EliteCount st) 0 (Orgs currS) (children, cnt) of
                (children1, cnt1) \<Rightarrow>
                  (case offspringLoop ops st (Orgs currS) (TotalFitness (Orgs currS))
                          popOrgs popFit (nat cnt1) children1 w of
                     Inl e \<Rightarrow> Inl e
                   | Inr (children2, w2) \<Rightarrow>
                       (case ensureCount ops st popOrgs popFit children2 w2 of
                          Inl e \<Rightarrow> Inl e
                        | Inr (children3, w3) \<Rightarrow>
                            Inr ((nextSpecies @ [nextS], children3), w3))))"

fun reproduceLoop ::
  "('w, 'n, 'c) collab \<Rightarrow> settings \<Rightarrow> real \<Rightarrow> ('n, 'c) organism list \<Rightarrow> real
     \<Rightarrow> ('n, 'c) species list \<Rightarrow> ('n, 'c) species list \<times> ('n, 'c) organism list \<Rightarrow> 'w
     \<Rightarrow> error + (('n, 'c) species list \<times> ('n, 'c) organism list) \<times> 'w" where
  "reproduceLoop ops st adjFit popOrgs popFit [] acc w = Inr (acc, w)"
| "reproduceLoop ops st adjFit popOrgs popFit (currS # rest) acc w =
     (case reproduceSpecies ops st adjFit popOrgs popFit currS acc w of
        Inl e \<Rightarrow> Inl e
      | Inr (acc', w') \<Rightarrow> reproduceLoop ops st adjFit popOrgs popFit rest acc' w')"

subsection \<open>\<^verbatim>\<open>speciate\<close>\<close>

text \<open>
  The inner loop of \<^verbatim>\<open>speciate\<close>: the child joins the first species whose example is
  nearer than the threshold; \<open>None\<close> is \<^verbatim>\<open>found == false\<close>.
\<close>

fun placeChild ::
  "('w, 'n, 'c) collab \<Rightarrow> settings \<Rightarrow> ('n, 'c) organism \<Rightarrow> ('n, 'c) species list
     \<Rightarrow> ('n, 'c) species list option" where
  "placeChild ops st child [] = None"
| "placeChild ops st child (s # ss) =
     (if distance ops st child (Example s) < CompatThreshold st
      then Some (s\<lparr>Orgs := Orgs s @ [child]\<rparr> # ss)
      else map_option (\<lambda>ss'. s # ss') (placeChild ops st child ss))"

fun speciate ::
  "('w, 'n, 'c) collab \<Rightarrow> settings \<Rightarrow> ('n, 'c) species list \<Rightarrow> ('n, 'c) organism list \<Rightarrow> 'w
     \<Rightarrow> ('n, 'c) species list \<times> 'w" where
  "speciate ops st ss [] w = (ss, w)"
| "speciate ops st ss (child # children) w =
     (case placeChild ops st child ss of
        Some ss' \<Rightarrow> speciate ops st ss' children w
      | None \<Rightarrow>
          (case innoNextID ops w of (newID, w') \<Rightarrow>
             speciate ops st
               (ss @ [\<lparr>ID = newID, Orgs = [child], Age = 0, BestFitness = 0, BestFitAge = 0,
                       Example = Some child, currFitness = 0\<rparr>])
               children w'))"

subsection \<open>\<^verbatim>\<open>rollPop\<close>\<close>

text \<open>
  The first two loops together: the species that live, culled, with \<open>adjFit\<close> and
  \<open>popFit\<close>.
\<close>

definition selectLiving ::
  "('w, 'n, 'c) collab \<Rightarrow> settings \<Rightarrow> ('n, 'c) population \<Rightarrow> 'w
     \<Rightarrow> error + (('n, 'c) species list \<times> real \<times> real) \<times> 'w" where
  "selectLiving ops st currPop w =
     (case scanSpecies ops (Species currPop) (None, 0) of
        (ss, bestSpecies, bestFit) \<Rightarrow> cullLoop ops st bestSpecies ss ([], 0, 0) w)"

text \<open>
  The whole step. The children are made with capacity \<open>PopulationSize\<close>, after the
  reset of the innovation counter; \<^verbatim>\<open>make\<close> panics for a negative capacity (a capacity
  beyond the memory of the machine is not modelled). Organisms are values here: \<^verbatim>\<open>cloneOrg\<close> and \<^verbatim>\<open>crossover\<close> are taken
  to return organisms of their own, so that \<^verbatim>\<open>mutate\<close>, which works in place on the
  child, changes no parent. The culled species of the current population, which the
  source updates in place, are not part of the result.
\<close>

definition rollPop ::
  "('w, 'n, 'c) collab \<Rightarrow> settings \<Rightarrow> ('n, 'c) population \<Rightarrow> 'w
     \<Rightarrow> error + ('n, 'c) population \<times> 'w" where
  "rollPop ops st currPop w =
     (case selectLiving ops st currPop w of
        Inl e \<Rightarrow> Inl e
      | Inr ((living, adjFit, popFit), w1) \<Rightarrow>
          if PopulationSize st < 0 then Inl MakeSliceOutOfRange
          else
            (case reproduceLoop ops st adjFit (sliceOrganisms living) popFit living ([], [])
                    (innoReset ops w1) of
               Inl e \<Rightarrow> Inl e
             | Inr ((nextSpecies, children), w2) \<Rightarrow>
                 (case speciate ops st nextSpecies children w2 of
                    (ss, w3) \<Rightarrow>
                      Inr (\<lparr>Generation = Generation currPop + 1,
                            Species = filter (\<lambda>s. length (Orgs s) > 0) ss\<rparr>, w3))))"


subsection \<open>A deterministic instance of the collaborators\<close>

text \<open>
  To run the model on concrete populations: the world is the innovation counter, every
  uniform draw is \<open>1/2\<close>, \<^verbatim>\<open>random.Int(n)\<close> is \<open>n - 1\<close>, the species fitness is the sum
  of the primary fitness, a clone is a copy, a crossover child has the genome of the first
  parent, mutation appends the connection gene 0, and the distance of two organisms is the
  difference of their gene counts.
\<close>

definition demoOps :: "(nat, nat, nat) collab" where
  "demoOps =
     \<lparr>calcFitness = (\<lambda>s. s\<lparr>currFitness := TotalFitness (Orgs s)\<rparr>),
      rndFloat64 = (\<lambda>w. (1/2, w)),
      rndNext = (\<lambda>w. (1/2, w)),
      rndInt = (\<lambda>n w. if n \<le> 0 then Inl CollaboratorPanic else Inr (n - 1, w)),
      innoReset = (\<lambda>w. w),
      innoNextID = (\<lambda>w. (int w, Suc w)),
      cloneOrg = (\<lambda>p newID. case p of None \<Rightarrow> Inl NilDereference | Some x \<Rightarrow> Inr x),
      mutate = (\<lambda>st x w. Inr (x\<lparr>Genome := (Genome x)\<lparr>Conns := Conns (Genome x) @ [0]\<rparr>\<rparr>, w)),
      crossover = (\<lambda>p1 p2 w. case (p1, p2) of
                      (Some x, Some y) \<Rightarrow> Inr (\<lparr>Genome = Genome x, Fitness0 = 0\<rparr>, w)
                    | _ \<Rightarrow> Inl NilDereference),
      distance = (\<lambda>st x e. case e of
                      None \<Rightarrow> 0
                    | Some y \<Rightarrow> real_of_int \<bar>geneCount x - geneCount y\<bar>),
      nonfiniteToInt = (\<lambda>f n. 0)\<rparr>"

definition demoSettings :: settings where
  "demoSettings =
     \<lparr>PopulationSize = 3, SurvivalPercent = 1/2, EliteCount = 1, AgeToStagnation = 5,
      InterspeciesMating = 0, Crossover = 3/4, CompatThreshold = 3\<rparr>"

definition org :: "nat \<Rightarrow> nat \<Rightarrow> real \<Rightarrow> (nat, nat) organism" where
  "org n c f = \<lparr>Genome = \<lparr>Nodes = replicate n 0, Conns = replicate c 0\<rparr>, Fitness0 = f\<rparr>"

definition spec :: "int \<Rightarrow> int \<Rightarrow> int \<Rightarrow> (nat, nat) organism list \<Rightarrow> (nat, nat) species" where
  "spec i age bestAge orgs =
     \<lparr>ID = i, Orgs = orgs, Age = age, BestFitness = 0, BestFitAge = bestAge,
      Example = None, currFitness = 0\<rparr>"

subsection \<open>Names for the statements\<close>

text \<open>The species that the first loop of \<^verbatim>\<open>rollPop\<close> leaves in \<open>bestSpecies\<close>.\<close>

definition bestSpecies :: "('w, 'n, 'c) collab \<Rightarrow> ('n, 'c) population \<Rightarrow> ('n, 'c) species option" where
  "bestSpecies ops currPop = fst (snd (scanSpecies ops (Species currPop) (None, 0)))"

text \<open>
  Concrete populations. In \<open>demoPop\<close> the second species owns the fittest organism and
  has gone 100 generations without improvement. \<open>live1\<close> and \<open>live2\<close> are its two
  species after culling.
\<close>

definition demoPop :: "(nat, nat) population" where
  "demoPop = \<lparr>Generation = 1,
      Species = [spec 1 0 0 [org 2 3 1, org 3 4 2], spec 2 100 0 [org 1 1 5, org 1 2 7]]\<rparr>"

definition live1 :: "(nat, nat) species" where
  "live1 = \<lparr>ID = 1, Orgs = [org 3 4 2], Age = 0, BestFitness = 0, BestFitAge = 0,
            Example = Some (org 3 4 2), currFitness = 3\<rparr>"

definition live2 :: "(nat, nat) species" where
  "live2 = \<lparr>ID = 2, Orgs = [org 1 2 7], Age = 100, BestFitness = 0, BestFitAge = 0,
            Example = Some (org 1 2 7), currFitness = 12\<rparr>"

definition demoNext :: "(nat, nat) population" where
  "demoNext = \<lparr>Generation = 2, Species =
     [\<lparr>ID = 1, Orgs = [org 3 4 2], Age = 1, BestFitness = 0, BestFitAge = 0,
       Example = Some (org 3 4 2), currFitness = 0\<rparr>,
      \<lparr>ID = 2, Orgs = [org 1 3 0, org 1 3 0], Age = 101, BestFitness = 0, BestFitAge = 0,
       Example = Some (org 1 2 7), currFitness = 0\<rparr>]\<rparr>"

text \<open>A population none of whose organisms has a positive fitness.\<close>

definition flatPop :: "(nat, nat) population" where
  "flatPop = \<lparr>Generation = 1, Species = [spec 1 0 0 [org 2 3 0, org 3 4 (-1)]]\<rparr>"

text \<open>One species of two organisms with 5 and 7 genes.\<close>

definition mpcPop :: "(nat, nat) population" where
  "mpcPop = \<lparr>Generation = 1, Species = [spec 1 0 0 [org 2 3 1, org 3 4 2]]\<rparr>"

text \<open>
  One species whose fittest organism has 2 genes and whose other organism has 10; every
  organism survives.
\<close>

definition eliteSettings :: settings where
  "eliteSettings = demoSettings\<lparr>SurvivalPercent := 1\<rparr>"

definition elitePop :: "(nat, nat) population" where
  "elitePop = \<lparr>Generation = 1, Species = [spec 1 0 0 [org 5 5 9, org 1 1 10]]\<rparr>"



text \<open>
  \<open>madeBy ops st p orgFit y\<close>: the organism \<open>y\<close> is what \<^verbatim>\<open>mutate\<close> returns for a clone of
  the champion, and the champion is \<open>p\<close> or nil; it is \<open>p\<close> when the fitness of \<open>p\<close> is
  not negative, \<open>orgFit\<close> is the total of the pool \<open>[p]\<close> and no draw exceeds 1.
\<close>

definition madeBy ::
  "('w, 'n, 'c) collab \<Rightarrow> settings \<Rightarrow> ('n, 'c) organism \<Rightarrow> real \<Rightarrow> ('n, 'c) organism \<Rightarrow> bool" where
  "madeBy ops st p orgFit y = (\<exists>p1 newID child v v'.
             (p1 = Some p \<or> p1 = None) \<and>
             (0 \<le> Fitness0 p \<and> orgFit = TotalFitness [p] \<and> (\<forall>u. fst (rndNext ops u) \<le> 1)
                \<longrightarrow> p1 = Some p) \<and>
             cloneOrg ops p1 newID = Inr child \<and> mutate ops st child v = Inr (y, v'))"


section \<open>Lemmas about the loops\<close>

lemmas demo_defs = demoOps_def demoSettings_def demoPop_def org_def spec_def

lemmas model_defs = rollPop_def selectLiving_def cullSpecies_def keepCount_def goInt_def
  sortReverse_def TotalFitness_def sliceOrganisms_def reproduceSpecies_def budget_def
  ensureCount_def offspringSlot_def mutateOnly_def crossMutate_def tournament_def
  geneCount_def Organisms_def

lemma addElite_eq:
  "addElite e i xs (children, cnt) =
     (children @ take (nat (e - i)) xs, cnt - int (min (nat (e - i)) (length xs)))"
proof (induction xs arbitrary: i children cnt)
  case Nil
  show ?case by simp
next
  case (Cons x xs)
  show ?case
  proof (cases "i < e")
    case True
    then have n: "nat (e - i) = Suc (nat (e - (i + 1)))" by simp
    from True show ?thesis
      by (simp add: Cons.IH n del: nat_diff_distrib)
  next
    case False
    then show ?thesis by simp
  qed
qed

lemma crossMutate_appends:
  "crossMutate ops st p1 p2 children w = Inr (children', w') \<Longrightarrow> \<exists>c. children' = children @ [c]"
  by (auto simp: crossMutate_def split: sum.splits prod.splits)

lemma mutateOnly_appends:
  "mutateOnly ops st p1 children w = Inr (children', w') \<Longrightarrow> \<exists>c. children' = children @ [c]"
  by (auto simp: mutateOnly_def split: sum.splits prod.splits)

lemma offspringSlot_extends:
  "offspringSlot ops st orgs orgFit popOrgs popFit children w = Inr (children', w')
   \<Longrightarrow> \<exists>ys. children' = children @ ys"
  by (auto simp: offspringSlot_def split: prod.splits if_splits
           dest!: crossMutate_appends mutateOnly_appends)

lemma offspringLoop_extends:
  "offspringLoop ops st orgs orgFit popOrgs popFit n children w = Inr (children', w')
   \<Longrightarrow> \<exists>ys. children' = children @ ys"
proof (induction n arbitrary: children w)
  case 0
  then show ?case by simp
next
  case (Suc n)
  from Suc.prems obtain c1 w1 where
    s: "offspringSlot ops st orgs orgFit popOrgs popFit children w = Inr (c1, w1)" and
    l: "offspringLoop ops st orgs orgFit popOrgs popFit n c1 w1 = Inr (children', w')"
    by (auto split: sum.splits)
  from offspringSlot_extends [OF s] Suc.IH [OF l] show ?case by auto
qed

lemma topUp_extends:
  "topUp ops st popOrgs popFit n children w = Inr (children', w')
   \<Longrightarrow> \<exists>ys. children' = children @ ys \<and> length ys = n"
proof (induction n arbitrary: children w)
  case 0
  then show ?case by simp
next
  case (Suc n)
  from Suc.prems obtain p1 w1 p2 w2 c1 w3 where
    c: "crossMutate ops st p1 p2 children w2 = Inr (c1, w3)" and
    l: "topUp ops st popOrgs popFit n c1 w3 = Inr (children', w')"
    by (auto split: sum.splits prod.splits)
  from crossMutate_appends [OF c] Suc.IH [OF l] show ?case by auto
qed

lemma ensureCount_result:
  assumes "ensureCount ops st popOrgs popFit children w = Inr (children', w')"
  shows "int (length children') = PopulationSize st \<and>
         (\<exists>zs. children' = take (nat (PopulationSize st)) children @ zs)"
proof (cases "int (length children) > PopulationSize st")
  case True
  with assms have "0 \<le> PopulationSize st" and "children' = take (nat (PopulationSize st)) children"
    by (auto simp: ensureCount_def split: if_splits)
  with True show ?thesis by auto
next
  case False
  with assms have "topUp ops st popOrgs popFit (nat (PopulationSize st - int (length children)))
             children w = Inr (children', w')"
    by (simp add: ensureCount_def)
  from topUp_extends [OF this] False show ?thesis by auto
qed

lemma reproduceSpecies_result:
  assumes "reproduceSpecies ops st adjFit popOrgs popFit currS (nextSpecies, children) w
             = Inr ((nextSpecies', children'), w')"
  shows "int (length children') = PopulationSize st"
    and "\<exists>zs. children' =
            take (nat (PopulationSize st)) (children @ take (nat (EliteCount st)) (Orgs currS)) @ zs"
    and "\<exists>nextS. nextSpecies' = nextSpecies @ [nextS] \<and> Orgs nextS = [] \<and> ID nextS = ID currS"
proof -
  let ?c1 = "children @ take (nat (EliteCount st)) (Orgs currS)"
  from assms obtain cnt1 c2 w2 where
    l: "offspringLoop ops st (Orgs currS) (TotalFitness (Orgs currS)) popOrgs popFit cnt1 ?c1 w
          = Inr (c2, w2)" and
    e: "ensureCount ops st popOrgs popFit c2 w2 = Inr (children', w')" and
    n: "\<exists>nextS. nextSpecies' = nextSpecies @ [nextS] \<and> Orgs nextS = [] \<and> ID nextS = ID currS"
    by (auto simp: reproduceSpecies_def addElite_eq Let_def split: if_splits sum.splits)
  from offspringLoop_extends [OF l] obtain ys where c2: "c2 = ?c1 @ ys" by blast
  from ensureCount_result [OF e] obtain zs where
    len: "int (length children') = PopulationSize st" and
    pre: "children' = take (nat (PopulationSize st)) c2 @ zs" by blast
  show "int (length children') = PopulationSize st" by (rule len)
  show "\<exists>nextS. nextSpecies' = nextSpecies @ [nextS] \<and> Orgs nextS = [] \<and> ID nextS = ID currS"
    by (rule n)
  have "take (nat (PopulationSize st)) c2 =
          take (nat (PopulationSize st)) ?c1 @ take (nat (PopulationSize st) - length ?c1) ys"
    unfolding c2 by (rule take_append)
  with pre show "\<exists>zs. children' = take (nat (PopulationSize st)) ?c1 @ zs"
    by simp
qed

lemma reproduceSpecies_full:
  assumes r: "reproduceSpecies ops st adjFit popOrgs popFit currS (nextSpecies, children) w
             = Inr ((nextSpecies', children'), w')"
      and full: "int (length children) = PopulationSize st"
  shows "children' = children"
proof -
  from reproduceSpecies_result(2) [OF r] obtain zs where
    z: "children' = take (nat (PopulationSize st))
                      (children @ take (nat (EliteCount st)) (Orgs currS)) @ zs" by blast
  from full have "take (nat (PopulationSize st))
                      (children @ take (nat (EliteCount st)) (Orgs currS)) = children"
    by simp
  with z have "children' = children @ zs" by simp
  moreover from reproduceSpecies_result(1) [OF r] full have "length children' = length children"
    by simp
  ultimately show ?thesis by simp
qed

lemma reproduceLoop_full:
  "reproduceLoop ops st adjFit popOrgs popFit living (nextSpecies, children) w
     = Inr ((nextSpecies', children'), w')
   \<Longrightarrow> int (length children) = PopulationSize st \<Longrightarrow> children' = children"
proof (induction living arbitrary: nextSpecies children w)
  case Nil
  then show ?case by simp
next
  case (Cons s rest)
  from Cons.prems(1) obtain ns1 c1 w1 where
    s: "reproduceSpecies ops st adjFit popOrgs popFit s (nextSpecies, children) w
          = Inr ((ns1, c1), w1)" and
    l: "reproduceLoop ops st adjFit popOrgs popFit rest (ns1, c1) w1
          = Inr ((nextSpecies', children'), w')"
    by (auto split: sum.splits)
  from reproduceSpecies_full [OF s Cons.prems(2)] have "c1 = children" .
  with Cons.IH [OF l] Cons.prems(2) show ?case by simp
qed

lemma reproduceLoop_species:
  "reproduceLoop ops st adjFit popOrgs popFit living (nextSpecies, children) w
     = Inr ((nextSpecies', children'), w')
   \<Longrightarrow> \<exists>new. nextSpecies' = nextSpecies @ new \<and> (\<forall>s \<in> set new. Orgs s = []) \<and>
            map ID new = map ID living"
proof (induction living arbitrary: nextSpecies children w)
  case Nil
  then show ?case by simp
next
  case (Cons s rest)
  from Cons.prems(1) obtain ns1 c1 w1 where
    s: "reproduceSpecies ops st adjFit popOrgs popFit s (nextSpecies, children) w
          = Inr ((ns1, c1), w1)" and
    l: "reproduceLoop ops st adjFit popOrgs popFit rest (ns1, c1) w1
          = Inr ((nextSpecies', children'), w')"
    by (auto split: sum.splits)
  from reproduceSpecies_result(3) [OF s] obtain nextS where
    n: "ns1 = nextSpecies @ [nextS]" "Orgs nextS = []" "ID nextS = ID s" by blast
  from Cons.IH [OF l] obtain new where
    m: "nextSpecies' = ns1 @ new" "\<forall>s \<in> set new. Orgs s = []" "map ID new = map ID rest"
    by blast
  show ?case
  proof (intro exI conjI)
    show "nextSpecies' = nextSpecies @ (nextS # new)" using n m by simp
    show "\<forall>s \<in> set (nextS # new). Orgs s = []" using n m by simp
    show "map ID (nextS # new) = map ID (s # rest)" using n m by simp
  qed
qed

text \<open>
  After the pass for the first living species the children number \<open>PopulationSize\<close>, and
  no later pass changes them: what a later species appends is cut off again.
\<close>

lemma reproduceLoop_first:
  assumes "reproduceLoop ops st adjFit popOrgs popFit (s # rest) (nextSpecies, children) w
     = Inr ((nextSpecies', children'), w')"
  shows "\<exists>ns1 w1. reproduceSpecies ops st adjFit popOrgs popFit s (nextSpecies, children) w
          = Inr ((ns1, children'), w1)"
proof -
  from assms obtain ns1 c1 w1 where
    s: "reproduceSpecies ops st adjFit popOrgs popFit s (nextSpecies, children) w
          = Inr ((ns1, c1), w1)" and
    l: "reproduceLoop ops st adjFit popOrgs popFit rest (ns1, c1) w1
          = Inr ((nextSpecies', children'), w')"
    by (auto split: sum.splits)
  from reproduceLoop_full [OF l reproduceSpecies_result(1) [OF s]] s show ?thesis by blast
qed

lemma placeChild_mset:
  "placeChild ops st child ss = Some ss'
   \<Longrightarrow> mset (concat (map Orgs ss')) = mset (concat (map Orgs ss)) + {#child#}"
  by (induction ss arbitrary: ss') (auto split: if_splits)

lemma speciate_mset:
  "speciate ops st ss children w = (ss', w')
   \<Longrightarrow> mset (concat (map Orgs ss')) = mset (concat (map Orgs ss)) + mset children"
proof (induction children arbitrary: ss w)
  case Nil
  then show ?case by simp
next
  case (Cons child children)
  show ?case
  proof (cases "placeChild ops st child ss")
    case None
    with Cons.prems obtain newID w1 where
      "speciate ops st (ss @ [\<lparr>ID = newID, Orgs = [child], Age = 0, BestFitness = 0,
            BestFitAge = 0, Example = Some child, currFitness = 0\<rparr>]) children w1 = (ss', w')"
      by (auto split: prod.splits)
    from Cons.IH [OF this] show ?thesis by simp
  next
    case (Some ss1)
    with Cons.prems have "speciate ops st ss1 children w = (ss', w')" by simp
    from Cons.IH [OF this] placeChild_mset [OF Some] show ?thesis by simp
  qed
qed


lemma scanOrgs_inv:
  "scanOrgs s xs (b, bf) = (b', bf') \<Longrightarrow>
     bf \<le> bf' \<and> (\<forall>x \<in> set xs. Fitness0 x \<le> bf') \<and>
     ((b' = b \<and> bf' = bf) \<or> (b' = Some s \<and> bf < bf' \<and> (\<exists>x \<in> set xs. Fitness0 x = bf')))"
proof (induction xs arbitrary: b bf)
  case Nil
  then show ?case by simp
next
  case (Cons x xs)
  show ?case
  proof (cases "Fitness0 x > bf")
    case True
    with Cons.prems have "scanOrgs s xs (Some s, Fitness0 x) = (b', bf')" by simp
    from Cons.IH [OF this] True show ?thesis by auto
  next
    case False
    with Cons.prems have "scanOrgs s xs (b, bf) = (b', bf')" by simp
    from Cons.IH [OF this] False show ?thesis by auto
  qed
qed

lemma scanSpecies_inv:
  "scanSpecies ops ss (b, bf) = (ss', b', bf') \<Longrightarrow>
     ss' = map (calcFitness ops) ss \<and> bf \<le> bf' \<and>
     (\<forall>s \<in> set ss'. \<forall>x \<in> set (Orgs s). Fitness0 x \<le> bf') \<and>
     ((b' = b \<and> bf' = bf) \<or>
      (\<exists>s \<in> set ss'. b' = Some s \<and> bf < bf' \<and> (\<exists>x \<in> set (Orgs s). Fitness0 x = bf')))"
proof (induction ss arbitrary: b bf ss')
  case Nil
  then show ?case by simp
next
  case (Cons s ss)
  let ?s = "calcFitness ops s"
  obtain b1 bf1 where o: "scanOrgs ?s (Orgs ?s) (b, bf) = (b1, bf1)" by force
  with Cons.prems obtain ss1 where
    r: "scanSpecies ops ss (b1, bf1) = (ss1, b', bf')" and ss': "ss' = ?s # ss1"
    by (auto simp: Let_def split: prod.splits)
  note A = scanOrgs_inv [OF o]
  note B = Cons.IH [OF r]
  from A B have le: "bf \<le> bf'" by linarith
  have bound: "\<forall>t \<in> set ss'. \<forall>x \<in> set (Orgs t). Fitness0 x \<le> bf'"
  proof (intro ballI)
    fix t x assume t: "t \<in> set ss'" and x: "x \<in> set (Orgs t)"
    show "Fitness0 x \<le> bf'"
    proof (cases "t = ?s")
      case True
      with x A have "Fitness0 x \<le> bf1" by blast
      with B show ?thesis by linarith
    next
      case False
      with t ss' have "t \<in> set ss1" by simp
      with B x show ?thesis by blast
    qed
  qed
  have pick: "(b' = b \<and> bf' = bf) \<or>
      (\<exists>s \<in> set ss'. b' = Some s \<and> bf < bf' \<and> (\<exists>x \<in> set (Orgs s). Fitness0 x = bf'))"
  proof -
    from B have "(b' = b1 \<and> bf' = bf1) \<or>
      (\<exists>s \<in> set ss1. b' = Some s \<and> bf1 < bf' \<and> (\<exists>x \<in> set (Orgs s). Fitness0 x = bf'))"
      by blast
    then show ?thesis
    proof
      assume same: "b' = b1 \<and> bf' = bf1"
      from A have "(b1 = b \<and> bf1 = bf) \<or>
          (b1 = Some ?s \<and> bf < bf1 \<and> (\<exists>x \<in> set (Orgs ?s). Fitness0 x = bf1))" by blast
      then show ?thesis
      proof
        assume "b1 = b \<and> bf1 = bf"
        with same show ?thesis by simp
      next
        assume "b1 = Some ?s \<and> bf < bf1 \<and> (\<exists>x \<in> set (Orgs ?s). Fitness0 x = bf1)"
        with same ss' show ?thesis by auto
      qed
    next
      assume "\<exists>s \<in> set ss1. b' = Some s \<and> bf1 < bf' \<and> (\<exists>x \<in> set (Orgs s). Fitness0 x = bf')"
      then obtain t where "t \<in> set ss1" "b' = Some t" "bf1 < bf'"
          "\<exists>x \<in> set (Orgs t). Fitness0 x = bf'" by blast
      moreover from A have "bf \<le> bf1" by blast
      ultimately show ?thesis using ss' by auto
    qed
  qed
  from B ss' have "ss' = map (calcFitness ops) (s # ss)" by simp
  with le bound pick show ?case by blast
qed

lemma cullLoop_nil_best:
  "ss \<noteq> [] \<Longrightarrow> cullLoop ops st None ss acc w = Inl NilDereference"
  by (cases ss; cases acc) auto

lemma cullLoop_prefix:
  "cullLoop ops st best ss (living, adjFit, popFit) w = Inr ((living', adjFit', popFit'), w')
   \<Longrightarrow> \<exists>new. living' = living @ new"
proof (induction ss arbitrary: living adjFit popFit w)
  case Nil
  then show ?case by simp
next
  case (Cons s ss)
  from Cons.prems obtain b where b: "best = Some b" by (cases best) auto
  show ?case
  proof (cases "ID s = ID b \<or> Age s - BestFitAge s < AgeToStagnation st")
    case True
    with Cons.prems b obtain s' w1 where
      "cullLoop ops st best ss (living @ [s'], adjFit + currFitness s,
          popFit + TotalFitness (Orgs s')) w1 = Inr ((living', adjFit', popFit'), w')"
      by (auto split: sum.splits)
    from Cons.IH [OF this] show ?thesis by auto
  next
    case False
    with Cons.prems b have
      "cullLoop ops st best ss (living, adjFit, popFit) w = Inr ((living', adjFit', popFit'), w')"
      by auto
    from Cons.IH [OF this] show ?thesis .
  qed
qed

lemma cullLoop_keeps_best:
  "cullLoop ops st (Some b) ss (living, adjFit, popFit) w = Inr ((living', adjFit', popFit'), w')
   \<Longrightarrow> b \<in> set ss
   \<Longrightarrow> \<exists>s' \<in> set living'. \<exists>w1 w2. cullSpecies ops st b w1 = Inr (s', w2)"
proof (induction ss arbitrary: living adjFit popFit w)
  case Nil
  then show ?case by simp
next
  case (Cons s ss)
  show ?case
  proof (cases "s = b")
    case True
    with Cons.prems(1) obtain s' w1 where
      c: "cullSpecies ops st b w = Inr (s', w1)" and
      l: "cullLoop ops st (Some b) ss (living @ [s'], adjFit + currFitness s,
          popFit + TotalFitness (Orgs s')) w1 = Inr ((living', adjFit', popFit'), w')"
      by (auto split: sum.splits)
    from cullLoop_prefix [OF l] have "s' \<in> set living'" by auto
    with c show ?thesis by blast
  next
    case False
    with Cons.prems(2) have in_rest: "b \<in> set ss" by simp
    show ?thesis
    proof (cases "ID s = ID b \<or> Age s - BestFitAge s < AgeToStagnation st")
      case True
      with Cons.prems(1) obtain s' w1 where
        "cullLoop ops st (Some b) ss (living @ [s'], adjFit + currFitness s,
            popFit + TotalFitness (Orgs s')) w1 = Inr ((living', adjFit', popFit'), w')"
        by (auto split: sum.splits)
      from Cons.IH [OF this in_rest] show ?thesis .
    next
      case False
      with Cons.prems(1) have
        "cullLoop ops st (Some b) ss (living, adjFit, popFit) w
           = Inr ((living', adjFit', popFit'), w')"
        by auto
      from Cons.IH [OF this in_rest] show ?thesis .
    qed
  qed
qed






section \<open>The claims\<close>

lemma tournamentWalk_below:
  "\<forall>k. 0 < k \<and> k \<le> length xs \<longrightarrow> acc + sum_list (map Fitness0 (take k xs)) < tgt
   \<Longrightarrow> tournamentWalk xs tgt acc = None"
proof (induction xs arbitrary: acc)
  case Nil
  show ?case by simp
next
  case (Cons x xs)
  have first: "acc + Fitness0 x < tgt"
    using Cons.prems [rule_format, of 1] by simp
  have rest: "\<forall>k. 0 < k \<and> k \<le> length xs \<longrightarrow>
                (acc + Fitness0 x) + sum_list (map Fitness0 (take k xs)) < tgt"
  proof (intro allI impI)
    fix k assume "0 < k \<and> k \<le> length xs"
    then show "(acc + Fitness0 x) + sum_list (map Fitness0 (take k xs)) < tgt"
      using Cons.prems [rule_format, of "Suc k"] by (simp add: add.assoc)
  qed
  from Cons.IH [OF rest] first show ?case by (simp add: Let_def)
qed

text \<open>
  C7. \<^verbatim>\<open>tournament\<close> over an empty pool, or over a pool none of whose running fitness
  sums reaches the drawn target, returns the nil champion; the function has no error
  result, so nothing is signalled.
\<close>

theorem tournament_unset_champion:
  "fst (tournament ops [] totFit w) = None \<and>
   ((\<forall>k. 0 < k \<and> k \<le> length orgs \<longrightarrow>
        sum_list (map Fitness0 (take k orgs)) < fst (rndNext ops w) * totFit)
    \<longrightarrow> fst (tournament ops orgs totFit w) = None)"
proof -
  have a: "fst (tournament ops [] totFit w) = None"
    by (simp add: tournament_def split: prod.splits)
  have b: "fst (tournament ops orgs totFit w) = None"
    if h: "\<forall>k. 0 < k \<and> k \<le> length orgs \<longrightarrow>
             sum_list (map Fitness0 (take k orgs)) < fst (rndNext ops w) * totFit"
  proof -
    from h have "\<forall>k. 0 < k \<and> k \<le> length orgs \<longrightarrow>
             0 + sum_list (map Fitness0 (take k orgs)) < fst (rndNext ops w) * totFit"
      by simp
    from tournamentWalk_below [OF this] show ?thesis
      by (auto simp: tournament_def split: prod.splits)
  qed
  from a b show ?thesis by blast
qed

theorem tournament_unset_champion_witness:
  "fst (tournament demoOps [org 1 1 1] 4 0) = None"
proof -
  have "\<forall>k. 0 < k \<and> k \<le> length [org 1 1 1] \<longrightarrow>
          sum_list (map Fitness0 (take k [org 1 1 1])) < fst (rndNext demoOps 0) * 4"
    by (simp add: demoOps_def org_def)
  with tournament_unset_champion [of demoOps 4 0 "[org 1 1 1]"] show ?thesis by blast
qed

lemma scan_from_start:
  assumes "scanSpecies ops ss (None, 0) = (ss', b', bf')"
  shows "ss' = map (calcFitness ops) ss"
    and "\<forall>s \<in> set ss'. \<forall>x \<in> set (Orgs s). Fitness0 x \<le> bf'"
    and "(b' = None \<and> bf' = 0) \<or>
         (\<exists>s \<in> set ss'. b' = Some s \<and> 0 < bf' \<and> (\<exists>x \<in> set (Orgs s). Fitness0 x = bf'))"
  using scanSpecies_inv [OF assms] by blast+

lemma cullSpecies_ID: "cullSpecies ops st s w = Inr (s', w') \<Longrightarrow> ID s' = ID s"
  by (auto simp: cullSpecies_def Let_def split: if_splits sum.splits)

lemma best_species_fittest:
  assumes "bestSpecies ops currPop = Some b"
  shows "\<exists>x \<in> set (Orgs b). \<forall>s \<in> set (map (calcFitness ops) (Species currPop)).
           \<forall>y \<in> set (Orgs s). Fitness0 y \<le> Fitness0 x"
proof -
  obtain ss b' bf where sc: "scanSpecies ops (Species currPop) (None, 0) = (ss, b', bf)"
    by (metis prod_cases3)
  note S = scan_from_start [OF sc]
  from assms sc have "b' = Some b" by (simp add: bestSpecies_def)
  with S(3) obtain x where "x \<in> set (Orgs b)" "Fitness0 x = bf" by auto
  with S(1) S(2) show ?thesis by blast
qed

lemma best_species_lives:
  assumes sel: "selectLiving ops st currPop w = Inr ((living, adjFit, popFit), w')"
      and ne: "Species currPop \<noteq> []"
  shows "\<exists>b. bestSpecies ops currPop = Some b \<and>
             b \<in> set (map (calcFitness ops) (Species currPop)) \<and>
             (\<exists>s' \<in> set living. \<exists>w1 w2. cullSpecies ops st b w1 = Inr (s', w2))"
proof -
  obtain ss b' bf where sc: "scanSpecies ops (Species currPop) (None, 0) = (ss, b', bf)"
    by (metis prod_cases3)
  note S = scan_from_start [OF sc]
  from sel sc have cl: "cullLoop ops st b' ss ([], 0, 0) w = Inr ((living, adjFit, popFit), w')"
    by (simp add: selectLiving_def)
  from S(1) ne have "ss \<noteq> []" by simp
  with cl cullLoop_nil_best [of ss ops st "([], 0, 0)" w] obtain b where b: "b' = Some b"
    by (cases b') auto
  with S(3) have bin: "b \<in> set ss" by auto
  from cullLoop_keeps_best [OF cl [unfolded b] bin] obtain s' w1 w2 where
    s': "s' \<in> set living" "cullSpecies ops st b w1 = Inr (s', w2)" by blast
  have "bestSpecies ops currPop = Some b" by (simp add: bestSpecies_def sc b)
  moreover have "b \<in> set (map (calcFitness ops) (Species currPop))" using bin S(1) by simp
  ultimately show ?thesis using s' by blast
qed

lemma living_nonempty:
  assumes sel: "selectLiving ops st currPop w = Inr ((living, adjFit, popFit), w')"
      and ne: "Species currPop \<noteq> []"
  shows "living \<noteq> []"
  using best_species_lives [OF sel ne] by auto

lemma demo_select:
  "selectLiving demoOps demoSettings demoPop 10 = Inr (([live1, live2], 15, 9), 10)"
  by (simp add: demo_defs model_defs live1_def live2_def Let_def)

lemma demo_best: "bestSpecies demoOps demoPop = Some (live2\<lparr>Orgs := [org 1 1 5, org 1 2 7], Example := None\<rparr>)"
  by (simp add: bestSpecies_def demo_defs model_defs live2_def Let_def)

lemma demo_roll: "rollPop demoOps demoSettings demoPop 10 = Inr (demoNext, 11)"
  by (simp add: demo_defs model_defs demoNext_def Let_def numeral_2_eq_2 numeral_3_eq_3)

text \<open>
  C4. When the two loops that select the living species return, the species that the scan
  left in \<open>bestSpecies\<close> is a species of the population, owns an organism whose primary
  fitness no organism exceeds, and its culled form is among the living species. Nothing is
  assumed of its age or of the age of its best fitness.
\<close>

theorem protected_species_survives:
  assumes "selectLiving ops st currPop w = Inr ((living, adjFit, popFit), w')"
      and "Species currPop \<noteq> []"
  shows "\<exists>b. bestSpecies ops currPop = Some b \<and>
             b \<in> set (map (calcFitness ops) (Species currPop)) \<and>
             (\<exists>x \<in> set (Orgs b). \<forall>s \<in> set (map (calcFitness ops) (Species currPop)).
                 \<forall>y \<in> set (Orgs s). Fitness0 y \<le> Fitness0 x) \<and>
             (\<exists>s' \<in> set living. ID s' = ID b \<and>
                 (\<exists>w1 w2. cullSpecies ops st b w1 = Inr (s', w2)))"
proof -
  from best_species_lives [OF assms] obtain b s' w1 w2 where
    best: "bestSpecies ops currPop = Some b" and
    mem: "b \<in> set (map (calcFitness ops) (Species currPop))" and
    lives: "s' \<in> set living" "cullSpecies ops st b w1 = Inr (s', w2)"
    by blast
  from lives(2) have "ID s' = ID b" by (rule cullSpecies_ID)
  with lives have "\<exists>s' \<in> set living. ID s' = ID b \<and>
                     (\<exists>w1 w2. cullSpecies ops st b w1 = Inr (s', w2))"
    by blast
  with best mem best_species_fittest [OF best] show ?thesis by blast
qed

theorem protected_species_survives_witness:
  "\<exists>b s'. bestSpecies demoOps demoPop = Some b \<and>
          \<not> Age b - BestFitAge b < AgeToStagnation demoSettings \<and>
          s' \<in> set [live1, live2] \<and> ID s' = ID b"
proof -
  have ne: "Species demoPop \<noteq> []" by (simp add: demoPop_def)
  from protected_species_survives [OF demo_select ne] obtain b s' where
    "bestSpecies demoOps demoPop = Some b" "s' \<in> set [live1, live2]" "ID s' = ID b"
    by blast
  moreover from this(1) demo_best
  have "b = live2\<lparr>Orgs := [org 1 1 5, org 1 2 7], Example := None\<rparr>" by simp
  then have "\<not> Age b - BestFitAge b < AgeToStagnation demoSettings"
    by (simp add: live2_def demoSettings_def)
  ultimately show ?thesis by blast
qed

text \<open>
  With no species at all neither loop has a pass, and the step returns an empty
  population.
\<close>

lemma rollPop_no_species:
  "0 \<le> PopulationSize st \<Longrightarrow>
   rollPop ops st \<lparr>Generation = g, Species = []\<rparr> w
     = Inr (\<lparr>Generation = g + 1, Species = []\<rparr>, innoReset ops w)"
  by (simp add: rollPop_def selectLiving_def sliceOrganisms_def)

text \<open>
  C10. The scan leaves \<open>bestSpecies\<close> nil exactly when no organism of the population has
  a primary fitness above zero; and when none has, the step on a population with at least
  one species panics on a nil dereference, at the gate of the first species.
\<close>

theorem rollPop_needs_positive_fitness:
  "(bestSpecies ops currPop = None \<longleftrightarrow>
      (\<forall>s \<in> set (Species currPop). \<forall>x \<in> set (Orgs (calcFitness ops s)). Fitness0 x \<le> 0)) \<and>
   (Species currPop \<noteq> [] \<and>
    (\<forall>s \<in> set (Species currPop). \<forall>x \<in> set (Orgs (calcFitness ops s)). Fitness0 x \<le> 0)
      \<longrightarrow> rollPop ops st currPop w = Inl NilDereference)"
proof -
  obtain ss b' bf where sc: "scanSpecies ops (Species currPop) (None, 0) = (ss, b', bf)"
    by (metis prod_cases3)
  note S = scan_from_start [OF sc]
  have bs: "bestSpecies ops currPop = b'" by (simp add: bestSpecies_def sc)
  have "b' = None \<longleftrightarrow>
      (\<forall>s \<in> set (Species currPop). \<forall>x \<in> set (Orgs (calcFitness ops s)). Fitness0 x \<le> 0)"
  proof
    assume "b' = None"
    with S(3) have "bf = 0" by auto
    with S(2) S(1) show
      "\<forall>s \<in> set (Species currPop). \<forall>x \<in> set (Orgs (calcFitness ops s)). Fitness0 x \<le> 0"
      by auto
  next
    assume all: "\<forall>s \<in> set (Species currPop). \<forall>x \<in> set (Orgs (calcFitness ops s)). Fitness0 x \<le> 0"
    show "b' = None"
    proof (rule ccontr)
      assume "b' \<noteq> None"
      with S(3) obtain s x where "s \<in> set ss" "0 < bf" "x \<in> set (Orgs s)" "Fitness0 x = bf"
        by auto
      moreover from \<open>s \<in> set ss\<close> S(1) obtain t where
        "t \<in> set (Species currPop)" "s = calcFitness ops t" by auto
      ultimately show False using all by fastforce
    qed
  qed
  moreover have "rollPop ops st currPop w = Inl NilDereference"
    if "Species currPop \<noteq> []" "b' = None"
  proof -
    from S(1) that(1) have "ss \<noteq> []" by simp
    then have "cullLoop ops st None ss ([], 0, 0) w = Inl NilDereference"
      by (rule cullLoop_nil_best)
    with that(2) sc show ?thesis
      by (simp add: rollPop_def selectLiving_def)
  qed
  ultimately show ?thesis using bs by simp
qed

theorem rollPop_needs_positive_fitness_witness:
  "bestSpecies demoOps flatPop = None \<and>
   rollPop demoOps demoSettings flatPop 10 = Inl NilDereference"
proof -
  have all: "\<forall>s \<in> set (Species flatPop). \<forall>x \<in> set (Orgs (calcFitness demoOps s)). Fitness0 x \<le> 0"
    by (simp add: flatPop_def demoOps_def spec_def org_def)
  have ne: "Species flatPop \<noteq> []" by (simp add: flatPop_def)
  from rollPop_needs_positive_fitness [of demoOps flatPop demoSettings 10] all ne
  show ?thesis by blast
qed

lemma concat_prune:
  "concat (map Orgs (filter (\<lambda>s. Orgs s \<noteq> []) ss)) = concat (map Orgs ss)"
  by (induction ss) auto

text \<open>
  C1. Every population that \<^verbatim>\<open>rollPop\<close> returns for a current population with at least
  one species holds, over all its species, exactly \<open>PopulationSize\<close> organisms.
\<close>

theorem rollPop_population_size:
  assumes roll: "rollPop ops st currPop w = Inr (nextPop, w')"
      and ne: "Species currPop \<noteq> []"
  shows "int (length (Organisms nextPop)) = PopulationSize st"
proof -
  from roll obtain living adjFit popFit w1 nextSpecies children w2 ss where
    sel: "selectLiving ops st currPop w = Inr ((living, adjFit, popFit), w1)" and
    rep: "reproduceLoop ops st adjFit (sliceOrganisms living) popFit living ([], [])
            (innoReset ops w1) = Inr ((nextSpecies, children), w2)" and
    spe: "speciate ops st nextSpecies children w2 = (ss, w')" and
    nxt: "Species nextPop = filter (\<lambda>s. length (Orgs s) > 0) ss"
    by (auto simp: rollPop_def split: sum.splits prod.splits if_splits)
  from living_nonempty [OF sel ne] obtain s rest where lv: "living = s # rest"
    by (cases living) auto
  from reproduceLoop_first [OF rep [unfolded lv]] obtain ns1 w3 where
    "reproduceSpecies ops st adjFit (sliceOrganisms (s # rest)) popFit s ([], [])
       (innoReset ops w1) = Inr ((ns1, children), w3)" by blast
  from reproduceSpecies_result(1) [OF this] have len: "int (length children) = PopulationSize st" .
  from reproduceLoop_species [OF rep] have "concat (map Orgs nextSpecies) = []" by auto
  with speciate_mset [OF spe] have "mset (concat (map Orgs ss)) = mset children" by simp
  then have "length (concat (map Orgs ss)) = length children" by (rule mset_eq_length)
  with len nxt show ?thesis by (simp add: Organisms_def concat_prune)
qed

theorem rollPop_population_size_witness:
  "int (length (Organisms demoNext)) = PopulationSize demoSettings"
proof -
  have ne: "Species demoPop \<noteq> []" by (simp add: demoPop_def)
  from rollPop_population_size [OF demo_roll ne] show ?thesis .
qed

lemma goInt_nonneg: "0 \<le> x \<Longrightarrow> goInt x = \<lfloor>x\<rfloor>"
  by (simp add: goInt_def)






lemma offspringSlot_single:
  "offspringSlot ops st [p] orgFit popOrgs popFit children w =
     (case rndFloat64 ops w of (r0, w0) \<Rightarrow>
        if r0 < InterspeciesMating st then Inr (children, w0)
        else case tournament ops [p] orgFit w0 of
               (p1, w1) \<Rightarrow> mutateOnly ops st p1 children w1)"
  by (simp add: offspringSlot_def split: prod.splits)

lemma tournament_crossover_update:
  "tournament (ops\<lparr>crossover := xo\<rparr>) orgs totFit w = tournament ops orgs totFit w"
  by (simp add: tournament_def)

lemma mutateOnly_crossover_update:
  "mutateOnly (ops\<lparr>crossover := xo\<rparr>) st p1 children w = mutateOnly ops st p1 children w"
  by (simp add: mutateOnly_def split: prod.splits sum.splits)

lemma offspringSlot_single_crossover:
  "offspringSlot (ops\<lparr>crossover := xo\<rparr>) st [p] orgFit popOrgs popFit children w
     = offspringSlot ops st [p] orgFit popOrgs popFit children w"
  by (simp add: offspringSlot_single tournament_crossover_update mutateOnly_crossover_update
           split: prod.splits)

lemma offspringLoop_single_crossover:
  "offspringLoop (ops\<lparr>crossover := xo\<rparr>) st [p] orgFit popOrgs popFit n children w
     = offspringLoop ops st [p] orgFit popOrgs popFit n children w"
  by (induction n arbitrary: children w)
     (simp_all add: offspringSlot_single_crossover split: sum.splits)

lemma walk_single:
  "tournamentWalk [p] tgt 0 = (if tgt \<le> Fitness0 p then Some p else None)"
  by (simp add: Let_def)

lemma offspringSlot_single_unfolded:
  "offspringSlot ops st [p] orgFit popOrgs popFit children w =
     (case rndFloat64 ops w of (r0, w0) \<Rightarrow>
        if r0 < InterspeciesMating st then Inr (children, w0)
        else case rndNext ops w0 of (r, w1) \<Rightarrow>
             case innoNextID ops w1 of (newID, w2) \<Rightarrow>
             case cloneOrg ops (if r * orgFit \<le> Fitness0 p then Some p else None) newID of
               Inl e \<Rightarrow> Inl e
             | Inr child \<Rightarrow>
                 (case mutate ops st child w2 of
                    Inl e \<Rightarrow> Inl e
                  | Inr (child', w3) \<Rightarrow> Inr (children @ [child'], w3)))"
proof -
  obtain r0 w0 where a: "rndFloat64 ops w = (r0, w0)" by force
  obtain r w1 where b: "rndNext ops w0 = (r, w1)" by force
  obtain newID w2 where c: "innoNextID ops w1 = (newID, w2)" by force
  show ?thesis
    by (simp only: offspringSlot_def tournament_def mutateOnly_def a b c prod.case
          walk_single list.size) simp
qed

lemma champion_single:
  assumes "0 \<le> Fitness0 p" and "orgFit = TotalFitness [p]" and "r \<le> 1"
  shows "r * orgFit \<le> Fitness0 p"
  using assms mult_right_mono [of r 1 "Fitness0 p"] by (simp add: TotalFitness_def)

lemma offspringSlot_single_step:
  assumes slot: "offspringSlot ops st [p] orgFit popOrgs popFit children w = Inr (children', w')"
  shows "children' = children \<or>
         (\<exists>y. children' = children @ [y] \<and> madeBy ops st p orgFit y)"
proof -
  obtain r0 w0 where a: "rndFloat64 ops w = (r0, w0)" by force
  obtain r w1 where b: "rndNext ops w0 = (r, w1)" by force
  obtain newID w2 where c: "innoNextID ops w1 = (newID, w2)" by force
  define p1 where "p1 = (if r * orgFit \<le> Fitness0 p then Some p else None)"
  have kind: "p1 = Some p \<or> p1 = None" by (simp add: p1_def)
  have champ: "0 \<le> Fitness0 p \<and> orgFit = TotalFitness [p] \<and> (\<forall>u. fst (rndNext ops u) \<le> 1)
                \<longrightarrow> p1 = Some p"
  proof
    assume h: "0 \<le> Fitness0 p \<and> orgFit = TotalFitness [p] \<and> (\<forall>u. fst (rndNext ops u) \<le> 1)"
    then have "fst (rndNext ops w0) \<le> 1" by blast
    with b have "r \<le> 1" by simp
    with h have "r * orgFit \<le> Fitness0 p" by (intro champion_single) simp_all
    then show "p1 = Some p" by (simp add: p1_def)
  qed
  show ?thesis
  proof (cases "r0 < InterspeciesMating st")
    case True
    have "offspringSlot ops st [p] orgFit popOrgs popFit children w = Inr (children, w0)"
      by (simp only: offspringSlot_single_unfolded a prod.case True if_True)
    with slot show ?thesis by simp
  next
    case False
    have eq: "offspringSlot ops st [p] orgFit popOrgs popFit children w =
        (case cloneOrg ops p1 newID of
           Inl e \<Rightarrow> Inl e
         | Inr child \<Rightarrow>
             (case mutate ops st child w2 of
                Inl e \<Rightarrow> Inl e
              | Inr (child', w3) \<Rightarrow> Inr (children @ [child'], w3)))"
      by (simp only: offspringSlot_single_unfolded a b c prod.case False if_False p1_def)
    show ?thesis
    proof (cases "cloneOrg ops p1 newID")
      case (Inl e)
      with eq slot show ?thesis by simp
    next
      case (Inr child)
      note cl = this
      show ?thesis
      proof (cases "mutate ops st child w2")
        case (Inl e)
        with eq cl slot show ?thesis by simp
      next
        case (Inr pr)
        obtain y w3 where pr: "pr = (y, w3)" by force
        with eq cl Inr slot have "children' = children @ [y]" "w3 = w'" by simp_all
        with pr Inr have mu: "mutate ops st child w2 = Inr (y, w')" by simp
        have "madeBy ops st p orgFit y"
          unfolding madeBy_def
          by (rule exI [of _ p1], rule exI [of _ newID], rule exI [of _ child],
              rule exI [of _ w2], rule exI [of _ w'], intro conjI)
             (rule kind, rule champ, rule cl, rule mu)
        with \<open>children' = children @ [y]\<close> show ?thesis by blast
      qed
    qed
  qed
qed

text \<open>
  C9. For a species with the single organism \<open>p\<close>: a pass of the offspring loop either
  skips, or draws the champion of the tournament over \<open>[p]\<close>, takes a fresh identity,
  clones the champion with \<^verbatim>\<open>cloneOrg\<close> and appends what \<^verbatim>\<open>mutate\<close> makes of the clone.
  Every child that the offspring loop adds is made so, and from \<open>p\<close> itself when the
  fitness of \<open>p\<close> is not negative and no draw exceeds 1. The loop is the same whatever the
  crossover operator is: it is never called.
\<close>

theorem singleton_species_mutation_only:
  "offspringSlot ops st [p] orgFit popOrgs popFit children w =
     (case rndFloat64 ops w of (r0, w0) \<Rightarrow>
        if r0 < InterspeciesMating st then Inr (children, w0)
        else case rndNext ops w0 of (r, w1) \<Rightarrow>
             case innoNextID ops w1 of (newID, w2) \<Rightarrow>
             case cloneOrg ops (if r * orgFit \<le> Fitness0 p then Some p else None) newID of
               Inl e \<Rightarrow> Inl e
             | Inr child \<Rightarrow>
                 (case mutate ops st child w2 of
                    Inl e \<Rightarrow> Inl e
                  | Inr (child', w3) \<Rightarrow> Inr (children @ [child'], w3))) \<and>
   (offspringLoop ops st [p] orgFit popOrgs popFit n children w = Inr (children', w') \<longrightarrow>
      (\<exists>ys. children' = children @ ys \<and> length ys \<le> n \<and>
         (\<forall>y \<in> set ys. \<exists>p1 newID child v v'.
             (p1 = Some p \<or> p1 = None) \<and>
             (0 \<le> Fitness0 p \<and> orgFit = TotalFitness [p] \<and> (\<forall>u. fst (rndNext ops u) \<le> 1)
                \<longrightarrow> p1 = Some p) \<and>
             cloneOrg ops p1 newID = Inr child \<and> mutate ops st child v = Inr (y, v')))) \<and>
   offspringLoop (ops\<lparr>crossover := xo\<rparr>) st [p] orgFit popOrgs popFit n children w
     = offspringLoop ops st [p] orgFit popOrgs popFit n children w"
proof -
  have loop: "\<exists>ys. children' = children @ ys \<and> length ys \<le> n \<and>
                (\<forall>y \<in> set ys. madeBy ops st p orgFit y)"
    if "offspringLoop ops st [p] orgFit popOrgs popFit n children w = Inr (children', w')"
    using that
  proof (induction n arbitrary: children w)
    case 0
    then show ?case by simp
  next
    case (Suc n)
    from Suc.prems obtain c1 w1 where
      s: "offspringSlot ops st [p] orgFit popOrgs popFit children w = Inr (c1, w1)" and
      l: "offspringLoop ops st [p] orgFit popOrgs popFit n c1 w1 = Inr (children', w')"
      by (auto split: sum.splits)
    from Suc.IH [OF l] obtain ys where
      ys: "children' = c1 @ ys" "length ys \<le> n" "\<forall>y \<in> set ys. madeBy ops st p orgFit y"
      by blast
    from offspringSlot_single_step [OF s] show ?case
    proof
      assume "c1 = children"
      with ys have "children' = children @ ys" "length ys \<le> Suc n" by simp_all
      with ys(3) show ?thesis by blast
    next
      assume "\<exists>y. c1 = children @ [y] \<and> madeBy ops st p orgFit y"
      then obtain y where y: "c1 = children @ [y]" "madeBy ops st p orgFit y" by blast
      with ys have "children' = children @ (y # ys)" "length (y # ys) \<le> Suc n"
        "\<forall>z \<in> set (y # ys). madeBy ops st p orgFit z" by simp_all
      then show ?thesis by blast
    qed
  qed
  show ?thesis
  proof (intro conjI impI)
    show "offspringSlot ops st [p] orgFit popOrgs popFit children w =
     (case rndFloat64 ops w of (r0, w0) \<Rightarrow>
        if r0 < InterspeciesMating st then Inr (children, w0)
        else case rndNext ops w0 of (r, w1) \<Rightarrow>
             case innoNextID ops w1 of (newID, w2) \<Rightarrow>
             case cloneOrg ops (if r * orgFit \<le> Fitness0 p then Some p else None) newID of
               Inl e \<Rightarrow> Inl e
             | Inr child \<Rightarrow>
                 (case mutate ops st child w2 of
                    Inl e \<Rightarrow> Inl e
                  | Inr (child', w3) \<Rightarrow> Inr (children @ [child'], w3)))"
      by (rule offspringSlot_single_unfolded)
    show "offspringLoop (ops\<lparr>crossover := xo\<rparr>) st [p] orgFit popOrgs popFit n children w
       = offspringLoop ops st [p] orgFit popOrgs popFit n children w"
      by (rule offspringLoop_single_crossover)
    show "\<exists>ys. children' = children @ ys \<and> length ys \<le> n \<and>
         (\<forall>y \<in> set ys. \<exists>p1 newID child v v'.
             (p1 = Some p \<or> p1 = None) \<and>
             (0 \<le> Fitness0 p \<and> orgFit = TotalFitness [p] \<and> (\<forall>u. fst (rndNext ops u) \<le> 1)
                \<longrightarrow> p1 = Some p) \<and>
             cloneOrg ops p1 newID = Inr child \<and> mutate ops st child v = Inr (y, v'))"
      if "offspringLoop ops st [p] orgFit popOrgs popFit n children w = Inr (children', w')"
      using loop [OF that] unfolding madeBy_def .
  qed
qed

lemma demo_single_loop:
  "offspringLoop demoOps demoSettings [org 1 2 7] 7 (sliceOrganisms [live1, live2]) 9 1
     [org 1 2 7] 10 = Inr ([org 1 2 7, org 1 3 7], 11)"
  by (simp add: live1_def live2_def demo_defs model_defs Let_def
        numeral_2_eq_2 numeral_3_eq_3)

theorem singleton_species_mutation_only_witness:
  "\<exists>newID child v v'.
      cloneOrg demoOps (Some (org 1 2 7)) newID = Inr child \<and>
      mutate demoOps demoSettings child v = Inr (org 1 3 7, v')"
proof -
  have h: "0 \<le> Fitness0 (org 1 2 7) \<and> (7::real) = TotalFitness [org 1 2 7] \<and>
           (\<forall>u. fst (rndNext demoOps u) \<le> 1)"
    by (simp add: org_def demoOps_def TotalFitness_def)
  note T = singleton_species_mutation_only
         [where ops = demoOps and st = demoSettings and p = "org 1 2 7" and orgFit = 7
            and popOrgs = "sliceOrganisms [live1, live2]" and popFit = 9 and n = 1
            and children = "[org 1 2 7]" and w = 10
            and children' = "[org 1 2 7, org 1 3 7]" and w' = 11]
  from T have "offspringLoop demoOps demoSettings [org 1 2 7] 7 (sliceOrganisms [live1, live2]) 9 1
                 [org 1 2 7] 10 = Inr ([org 1 2 7, org 1 3 7], 11) \<longrightarrow>
      (\<exists>ys. [org 1 2 7, org 1 3 7] = [org 1 2 7] @ ys \<and> length ys \<le> 1 \<and>
         (\<forall>y \<in> set ys. \<exists>p1 newID child v v'.
             (p1 = Some (org 1 2 7) \<or> p1 = None) \<and>
             (0 \<le> Fitness0 (org 1 2 7) \<and> (7::real) = TotalFitness [org 1 2 7] \<and>
                (\<forall>u. fst (rndNext demoOps u) \<le> 1) \<longrightarrow> p1 = Some (org 1 2 7)) \<and>
             cloneOrg demoOps p1 newID = Inr child \<and>
             mutate demoOps demoSettings child v = Inr (y, v')))"
    by (rule conjunct1 [OF conjunct2])
  from this [rule_format, OF demo_single_loop] obtain ys where
    ys: "[org 1 2 7, org 1 3 7] = [org 1 2 7] @ ys" and
    made: "\<forall>y \<in> set ys. \<exists>p1 newID child v v'.
             (p1 = Some (org 1 2 7) \<or> p1 = None) \<and>
             (0 \<le> Fitness0 (org 1 2 7) \<and> (7::real) = TotalFitness [org 1 2 7] \<and>
                (\<forall>u. fst (rndNext demoOps u) \<le> 1) \<longrightarrow> p1 = Some (org 1 2 7)) \<and>
             cloneOrg demoOps p1 newID = Inr child \<and>
             mutate demoOps demoSettings child v = Inr (y, v')"
    by (elim exE conjE)
  from ys have "org 1 3 7 \<in> set ys" by auto
  from made [rule_format, OF this] obtain p1 newID child v v' where
    p1: "0 \<le> Fitness0 (org 1 2 7) \<and> (7::real) = TotalFitness [org 1 2 7] \<and>
                (\<forall>u. fst (rndNext demoOps u) \<le> 1) \<longrightarrow> p1 = Some (org 1 2 7)" and
    c: "cloneOrg demoOps p1 newID = Inr child"
       "mutate demoOps demoSettings child v = Inr (org 1 3 7, v')"
    by (elim exE conjE)
  from p1 h have "p1 = Some (org 1 2 7)" by (rule mp)
  with c show ?thesis by (intro exI conjI) simp_all
qed








text \<open>
  C6, as stated, fails: in \<open>elitePop\<close> the elite of species 1 is the organism of fitness
  10; the next population has no species 1, and the elite is in the new species 10.
\<close>

theorem elite_other_species_counterexample:
  "selectLiving demoOps eliteSettings elitePop 10 =
     Inr (([\<lparr>ID = 1, Orgs = [org 1 1 10, org 5 5 9], Age = 0, BestFitness = 0, BestFitAge = 0,
             Example = Some (org 5 5 9), currFitness = 19\<rparr>], 19, 19), 10) \<and>
   rollPop demoOps eliteSettings elitePop 10 =
     Inr (\<lparr>Generation = 2, Species =
            [\<lparr>ID = 10, Orgs = [org 1 1 10, org 1 2 0, org 1 2 0], Age = 0, BestFitness = 0,
              BestFitAge = 0, Example = Some (org 1 1 10), currFitness = 0\<rparr>]\<rparr>, 11)"
  by (simp add: eliteSettings_def elitePop_def demo_defs model_defs Let_def
        numeral_2_eq_2 numeral_3_eq_3)

text \<open>
  C6, amended. The first \<open>EliteCount\<close> survivors of the first living species, as far as
  the population size allows, are organisms of the next population, unchanged; which
  species holds them is for \<^verbatim>\<open>speciate\<close> to decide.
\<close>

theorem elite_carried_over:
  assumes sel: "selectLiving ops st currPop w = Inr ((s # rest, adjFit, popFit), w1)"
      and roll: "rollPop ops st currPop w = Inr (nextPop, w')"
  shows "mset (take (nat (PopulationSize st)) (take (nat (EliteCount st)) (Orgs s)))
           \<subseteq># mset (Organisms nextPop)"
proof -
  from roll sel obtain nextSpecies children w2 ss where
    rep: "reproduceLoop ops st adjFit (sliceOrganisms (s # rest)) popFit (s # rest) ([], [])
            (innoReset ops w1) = Inr ((nextSpecies, children), w2)" and
    spe: "speciate ops st nextSpecies children w2 = (ss, w')" and
    nxt: "Species nextPop = filter (\<lambda>s. length (Orgs s) > 0) ss"
    by (auto simp: rollPop_def split: sum.splits prod.splits if_splits)
  from reproduceLoop_first [OF rep] obtain ns1 w3 where
    "reproduceSpecies ops st adjFit (sliceOrganisms (s # rest)) popFit s ([], [])
       (innoReset ops w1) = Inr ((ns1, children), w3)" by blast
  from reproduceSpecies_result(2) [OF this] obtain zs where
    c: "children = take (nat (PopulationSize st)) (take (nat (EliteCount st)) (Orgs s)) @ zs"
    by auto
  from speciate_mset [OF spe] have "mset children \<subseteq># mset (concat (map Orgs ss))" by simp
  moreover from c have
    "mset (take (nat (PopulationSize st)) (take (nat (EliteCount st)) (Orgs s))) \<subseteq># mset children"
    by (metis mset_append mset_subset_eq_add_left)
  ultimately show ?thesis using nxt
    by (simp add: Organisms_def concat_prune subset_mset.order_trans)
qed

theorem elite_carried_over_witness:
  "org 3 4 2 \<in> set (Organisms demoNext)"
proof -
  have sel: "selectLiving demoOps demoSettings demoPop 10 = Inr ((live1 # [live2], 15, 9), 10)"
    by (rule demo_select)
  from elite_carried_over [OF sel demo_roll]
  have "mset [org 3 4 2] \<subseteq># mset (Organisms demoNext)"
    by (simp add: live1_def demoSettings_def)
  then show ?thesis by (simp add: mset_subset_eq_insertD)
qed

text \<open>
  C5. For the population of one species with two organisms of 5 and 7 genes, \<^verbatim>\<open>MPC\<close>
  divides the 12 genes by the one species.
\<close>

theorem MPC_divides_by_species:
  "map geneCount (Organisms mpcPop) = [5, 7] \<and> MPC mpcPop = Some 12"
  by (simp add: MPC_def mpcPop_def Organisms_def geneCount_def spec_def org_def)

text \<open>
  C2. For the two living species of \<open>demoPop\<close>, the body of the loop, run for the first
  species alone, already returns three children: its elite and two from the top-up. The
  second species has a budget of 2 and an elite, and the loop over both species returns
  the same three children.
\<close>

theorem correction_inside_species_loop:
  "reproduceSpecies demoOps demoSettings 15 (sliceOrganisms [live1, live2]) 9 live1 ([], []) 10 =
     Inr (([live1\<lparr>Orgs := [], Age := 1, currFitness := 0\<rparr>],
           [org 3 4 2, org 1 3 0, org 1 3 0]), 10) \<and>
   budget demoOps demoSettings 15 live2 = 2 \<and>
   take (nat (EliteCount demoSettings)) (Orgs live2) = [org 1 2 7] \<and>
   reproduceLoop demoOps demoSettings 15 (sliceOrganisms [live1, live2]) 9 [live1, live2] ([], []) 10 =
     Inr (([live1\<lparr>Orgs := [], Age := 1, currFitness := 0\<rparr>,
            live2\<lparr>Orgs := [], Age := 101, currFitness := 0\<rparr>],
           [org 3 4 2, org 1 3 0, org 1 3 0]), 11)"
  by (simp add: live1_def live2_def demo_defs model_defs Let_def
        numeral_2_eq_2 numeral_3_eq_3)

end
